theory Spec2Isabelle
  imports Main "HOL-Library.Word" "HOL-Library.AList"
begin

unbundle bit_operations_syntax

section \<open>The KeyWatcher of active-keys (src/index.js)\<close>

text \<open>
  The class \<open>KeyWatcher\<close> keeps one object, \<open>activeKeys\<close>, created as \<open>{}\<close>. Its
  own properties are an association list in insertion order, from \<open>KeyboardEvent#key\<close>
  strings to values; \<open>Object.keys\<close> is the list of its keys, and no handler depends on
  their order. The handlers store the results of the bitwise operators of JavaScript, which
  are 32-bit integers (\<open>Num\<close>). The object inherits from \<open>Object.prototype\<close>, so a
  read can also give one of the functions found there, or the prototype itself under
  \<open>__proto__\<close>: an object that is not a number (\<open>Obj\<close>).

  The effects of the class are fields of the state: \<open>dispatched\<close> counts the
  \<open>change\<close> events given to \<open>dispatchEvent\<close>, \<open>warnings\<close> is what went to
  \<open>console.warn\<close>.
\<close>

datatype jsval = Num "32 word" | Obj

type_synonym keymap = "(string \<times> jsval) list"

record KeyWatcher =
  activeKeys :: keymap
  dispatched :: nat
  warnings :: "string list"

text \<open>The fields of an event that the handlers read.\<close>

record event =
  type :: string
  key :: string
  location :: int

datatype error = TypeError

text \<open>A fresh instance: \<open>activeKeys = {}\<close>, nothing dispatched, nothing logged.\<close>

definition newKeyWatcher :: KeyWatcher where
  "newKeyWatcher = \<lparr>activeKeys = [], dispatched = 0, warnings = []\<rparr>"

subsection \<open>JavaScript primitives\<close>

text \<open>
  \<open>x << n\<close> on numbers: the left operand as a 32-bit integer, shifted by the
  right operand taken as an unsigned 32-bit integer and masked with \<open>0x1F\<close>.
\<close>

definition js_shl :: "32 word \<Rightarrow> int \<Rightarrow> 32 word" where
  "js_shl x n = push_bit (unat ((word_of_int n :: 32 word) AND 0x1F)) x"

text \<open>Truthiness of a number: everything but zero.\<close>

definition truthy :: "32 word \<Rightarrow> bool" where
  "truthy w = (w \<noteq> 0)"

text \<open>The character classes \<open>[A-Z]\<close>, \<open>[a-z]\<close> and \<open>[0-9]\<close>, by character code.\<close>

definition isUpper :: "char \<Rightarrow> bool" where
  "isUpper c = ((65::nat) \<le> of_char c \<and> of_char c \<le> (90::nat))"

definition isLower :: "char \<Rightarrow> bool" where
  "isLower c = ((97::nat) \<le> of_char c \<and> of_char c \<le> (122::nat))"

definition isDigit :: "char \<Rightarrow> bool" where
  "isDigit c = ((48::nat) \<le> of_char c \<and> of_char c \<le> (57::nat))"

text \<open>
  \<open>String#toUpperCase\<close> on one character; outside the ASCII letters it never produces
  the first letter of a handler's name, and the model leaves such a character as it is.
\<close>

definition toUpperCase :: "char \<Rightarrow> char" where
  "toUpperCase c = (if isLower c then char_of (of_char c - (32::nat)) else c)"

subsection \<open>The methods\<close>

definition dispatch :: "KeyWatcher \<Rightarrow> KeyWatcher" where
  "dispatch s = s\<lparr>dispatched := dispatched s + 1\<rparr>"

text \<open>\<open>key.match(/^[A-Z][a-zA-Z0-9]+$/)\<close>\<close>

definition isNamedKey :: "string \<Rightarrow> bool" where
  "isNamedKey k =
     (case k of
        [] \<Rightarrow> False
      | c # cs \<Rightarrow> isUpper c \<and> cs \<noteq> [] \<and> list_all (\<lambda>d. isLower d \<or> isUpper d \<or> isDigit d) cs)"

text \<open>The loop of \<open>_removeAll\<close> over \<open>Object.keys(this.activeKeys)\<close>.\<close>

fun removeAllLoop :: "string list \<Rightarrow> keymap \<Rightarrow> keymap" where
  "removeAllLoop [] m = m"
| "removeAllLoop (activeKey # ks) m = removeAllLoop ks (AList.delete activeKey m)"

definition removeAll_keys :: "KeyWatcher \<Rightarrow> KeyWatcher" where
  "removeAll_keys s =
     dispatch (s\<lparr>activeKeys := removeAllLoop (map fst (activeKeys s)) (activeKeys s)\<rparr>)"

definition handleBlur :: "KeyWatcher \<Rightarrow> KeyWatcher" where
  "handleBlur s = removeAll_keys s"

text \<open>The loop of \<open>_removeUnnamedKeys\<close>, with its flag \<open>removed\<close>.\<close>

fun removeUnnamedLoop :: "string list \<Rightarrow> keymap \<Rightarrow> bool \<Rightarrow> keymap \<times> bool" where
  "removeUnnamedLoop [] m removed = (m, removed)"
| "removeUnnamedLoop (activeKey # ks) m removed =
     (if isNamedKey activeKey then removeUnnamedLoop ks m removed
      else removeUnnamedLoop ks (AList.delete activeKey m) True)"

definition removeUnnamedKeys :: "KeyWatcher \<Rightarrow> bool \<times> KeyWatcher" where
  "removeUnnamedKeys s =
     (let (m, removed) = removeUnnamedLoop (map fst (activeKeys s)) (activeKeys s) False
      in (removed, s\<lparr>activeKeys := m\<rparr>))"

text \<open>
  \<open>_handleModifiers\<close> returns the pair \<open>[key === 'Dead' ? null : key, changed]\<close>;
  \<open>null\<close> is \<open>None\<close>.
\<close>

definition handleModifiers :: "string \<Rightarrow> KeyWatcher \<Rightarrow> (string option \<times> bool) \<times> KeyWatcher" where
  "handleModifiers k s =
     (let (changed, s') =
            (if isNamedKey k
             then (let (removed, s') = removeUnnamedKeys s in (False \<or> removed, s'))
             else (False, s))
      in ((if k = ''Dead'' then None else Some k, changed), s'))"

text \<open>\<open>if (key)\<close>: \<open>null\<close> and the empty string are falsy.\<close>

fun truthyKey :: "string option \<Rightarrow> bool" where
  "truthyKey None = False"
| "truthyKey (Some k) = (k \<noteq> [])"

text \<open>
  The members of \<open>Object.prototype\<close> that a read of \<open>activeKeys\<close> can reach: its
  functions, which are writable data properties, and the accessor \<open>__proto__\<close>.
\<close>

definition inheritedFunctions :: "string list" where
  "inheritedFunctions =
     [''constructor'', ''hasOwnProperty'', ''isPrototypeOf'', ''propertyIsEnumerable'',
      ''toLocaleString'', ''toString'', ''valueOf'', ''__defineGetter__'', ''__defineSetter__'',
      ''__lookupGetter__'', ''__lookupSetter__'']"

text \<open>
  A read \<open>this.activeKeys[key]\<close>: the own property when there is one, then the prototype;
  \<open>None\<close> is \<open>undefined\<close>.
\<close>

definition getProp :: "keymap \<Rightarrow> string \<Rightarrow> jsval option" where
  "getProp m k =
     (case map_of m k of
        Some v \<Rightarrow> Some v
      | None \<Rightarrow> if k = ''__proto__'' \<or> k \<in> set inheritedFunctions then Some Obj else None)"

text \<open>
  An assignment \<open>this.activeKeys[key] = v\<close> writes an own property, also over an inherited
  function. Without an own property of that name, the assignment to \<open>__proto__\<close> goes to
  the setter of the accessor, which ignores a number and, given the prototype it has just
  read, leaves the prototype as it is.
\<close>

definition setProp :: "string \<Rightarrow> jsval \<Rightarrow> keymap \<Rightarrow> keymap" where
  "setProp k v m = (if k = ''__proto__'' \<and> map_of m k = None then m else AList.update k v m)"

text \<open>
  \<open>truthyVal\<close> is the truthiness of what was read, \<open>toInt32\<close> its value as an operand
  of \<open>&\<close> and \<open>|\<close> (\<open>undefined\<close>, a function and the prototype object all convert to
  \<open>NaN\<close> and then to 0), \<open>orZero\<close> is \<open>this.activeKeys[key] || 0\<close>.
\<close>

fun truthyVal :: "jsval option \<Rightarrow> bool" where
  "truthyVal None = False"
| "truthyVal (Some (Num w)) = truthy w"
| "truthyVal (Some Obj) = True"

fun toInt32 :: "jsval option \<Rightarrow> 32 word" where
  "toInt32 None = 0"
| "toInt32 (Some (Num w)) = w"
| "toInt32 (Some Obj) = 0"

fun orZero :: "jsval option \<Rightarrow> jsval" where
  "orZero None = Num 0"
| "orZero (Some v) = (if truthyVal (Some v) then v else Num 0)"

definition handleKeydown :: "string \<Rightarrow> int \<Rightarrow> KeyWatcher \<Rightarrow> KeyWatcher" where
  "handleKeydown k0 loc s0 =
     (let ((newKey, changed0), s1) = handleModifiers k0 s0;
          (changed, s3) =
            (case newKey of
               None \<Rightarrow> (changed0, s1)
             | Some k \<Rightarrow>
                 if truthyKey (Some k) then
                   (let wasActive = orZero (getProp (activeKeys s1) k);
                        m1 = setProp k wasActive (activeKeys s1);
                        bitwise = js_shl 1 loc
                    in if \<not> truthy (toInt32 (getProp m1 k) AND bitwise)
                       then (if \<not> truthyVal (Some wasActive) then True else changed0,
                             s1\<lparr>activeKeys :=
                                  setProp k (Num (toInt32 (getProp m1 k) OR bitwise)) m1\<rparr>)
                       else (changed0, s1\<lparr>activeKeys := m1\<rparr>))
                 else (changed0, s1))
      in if changed then dispatch s3 else s3)"

definition handleKeyup :: "string \<Rightarrow> int \<Rightarrow> KeyWatcher \<Rightarrow> KeyWatcher" where
  "handleKeyup k0 loc s0 =
     (let ((newKey, changed0), s1) = handleModifiers k0 s0;
          (changed, s3) =
            (case newKey of
               None \<Rightarrow> (changed0, s1)
             | Some k \<Rightarrow>
                 if truthyKey (Some k) then
                   (if truthyVal (getProp (activeKeys s1) k) then
                      (let bitwiseInverse = NOT (js_shl 1 loc);
                           m1 = setProp k
                                  (Num (toInt32 (getProp (activeKeys s1) k) AND bitwiseInverse))
                                  (activeKeys s1)
                       in if \<not> truthyVal (getProp m1 k)
                          then (True, s1\<lparr>activeKeys := AList.delete k m1\<rparr>)
                          else (changed0, s1\<lparr>activeKeys := m1\<rparr>))
                    else (changed0, s1))
                 else (changed0, s1))
      in if changed then dispatch s3 else s3)"

text \<open>
  \<open>handleEvent\<close> builds the name \<open>'_handle' + evt.type[0].toUpperCase() + evt.type.slice(1)\<close>
  and calls the member of that name when there is one. The members whose names start with
  \<open>_handle\<close> are \<open>_handleKeydown\<close>, \<open>_handleKeyup\<close>, \<open>_handleBlur\<close> and \<open>_handleModifiers\<close>.
  With an empty \<open>type\<close>, \<open>evt.type[0]\<close> is \<open>undefined\<close> and the call of
  \<open>toUpperCase\<close> throws. \<open>_handleModifiers\<close> is given the event where it expects the key
  string, and \<open>key.match\<close> is not a function of an event: it throws.
\<close>

definition handleEvent :: "event \<Rightarrow> KeyWatcher \<Rightarrow> error + KeyWatcher" where
  "handleEvent evt s =
     (case type evt of
        [] \<Rightarrow> Inl TypeError
      | c # cs \<Rightarrow>
          (let typeHandler = ''_handle'' @ toUpperCase c # cs
           in if typeHandler = ''_handleKeydown'' then Inr (handleKeydown (key evt) (location evt) s)
              else if typeHandler = ''_handleKeyup'' then Inr (handleKeyup (key evt) (location evt) s)
              else if typeHandler = ''_handleBlur'' then Inr (handleBlur s)
              else if typeHandler = ''_handleModifiers'' then Inl TypeError
              else Inr (s\<lparr>warnings := warnings s @ [''No handler for '' @ type evt @ '' on KeyWatcher.'']\<rparr>)))"

subsection \<open>Sequences of events\<close>

text \<open>
  The events the constructor subscribes to are \<open>keydown\<close>, \<open>keyup\<close> and \<open>blur\<close>.
  \<open>replay\<close> gives a sequence of events to \<open>handleEvent\<close>, one after the other; an
  exception ends it.
\<close>

definition tracked :: "event \<Rightarrow> bool" where
  "tracked evt = (type evt = ''keydown'' \<or> type evt = ''keyup'' \<or> type evt = ''blur'')"

fun replay :: "event list \<Rightarrow> KeyWatcher \<Rightarrow> error + KeyWatcher" where
  "replay [] s = Inr s"
| "replay (evt # evts) s =
     (case handleEvent evt s of Inl err \<Rightarrow> Inl err | Inr s' \<Rightarrow> replay evts s')"

text \<open>The keys of the mapping, and whether one of them is not a named key.\<close>

definition keysOf :: "KeyWatcher \<Rightarrow> string set" where
  "keysOf s = fst ` set (activeKeys s)"

definition unnamedActive :: "KeyWatcher \<Rightarrow> bool" where
  "unnamedActive s = list_ex (\<lambda>p. \<not> isNamedKey (fst p)) (activeKeys s)"

subsection \<open>The specification's reading of a sequence\<close>

text \<open>
  The specification speaks of the (key, location) pairs that were pressed and are not yet
  released. \<open>press\<close> keeps them as a list: a key-down adds its pair, a key-up removes
  it. \<open>paired\<close> says that a sequence consists of key-downs and key-ups, each key-up
  at a pair that is pressed when it arrives.
\<close>

definition press :: "event \<Rightarrow> (string \<times> int) list \<Rightarrow> (string \<times> int) list" where
  "press evt P =
     (if type evt = ''keydown'' then List.insert (key evt, location evt) P
      else if type evt = ''keyup'' then removeAll (key evt, location evt) P
      else P)"

fun unreleased :: "event list \<Rightarrow> (string \<times> int) list \<Rightarrow> (string \<times> int) list" where
  "unreleased [] P = P"
| "unreleased (evt # evts) P = unreleased evts (press evt P)"

fun paired :: "event list \<Rightarrow> (string \<times> int) list \<Rightarrow> bool" where
  "paired [] P = True"
| "paired (evt # evts) P =
     ((type evt = ''keydown'' \<or> (type evt = ''keyup'' \<and> (key evt, location evt) \<in> set P))
      \<and> paired evts (press evt P))"

text \<open>
  \<open>calm\<close> sequences stay clear of the normalisation of \<open>_handleModifiers\<close> and of
  the 32-bit shift: every key is a non-empty string other than \<open>Dead\<close> and
  \<open>__proto__\<close> (which the object never stores), every location is one of 0 to 31, and an
  event of a named key arrives only while no unnamed key is pressed.
\<close>

fun calm :: "event list \<Rightarrow> (string \<times> int) list \<Rightarrow> bool" where
  "calm [] P = True"
| "calm (evt # evts) P =
     (key evt \<noteq> [] \<and> key evt \<noteq> ''Dead'' \<and> key evt \<noteq> ''__proto__''
      \<and> 0 \<le> location evt \<and> location evt < 32
      \<and> (isNamedKey (key evt) \<longrightarrow> list_all (\<lambda>p. isNamedKey (fst p)) P)
      \<and> calm evts (press evt P))"

text \<open>
  An event \<open>evt\<close> between two key-downs of the pair \<open>(k, loc)\<close> leaves the pair's bit
  alone: it is a key-down or a key-up, it is not the key-up of \<open>k\<close> at a location that
  shifts to the same bit, it is not an event of a named key when \<open>k\<close> is unnamed, and it
  is not the key-down of an unnamed key when \<open>k\<close> is named.
\<close>

definition leavesAlone :: "string \<Rightarrow> int \<Rightarrow> event \<Rightarrow> bool" where
  "leavesAlone k loc evt =
     ((type evt = ''keydown'' \<or> type evt = ''keyup'')
      \<and> \<not> (type evt = ''keyup'' \<and> key evt = k \<and> location evt mod 32 = loc mod 32)
      \<and> (if isNamedKey k
         then \<not> (type evt = ''keydown'' \<and> key evt \<noteq> [] \<and> \<not> isNamedKey (key evt))
         else \<not> isNamedKey (key evt)))"

text \<open>
  The state in which a key-down of \<open>(k, loc)\<close> finds nothing to do: the bit of the pair
  is set (for a key that is stored at all), and a named \<open>k\<close> finds no unnamed key to
  clear.
\<close>

definition settled :: "string \<Rightarrow> int \<Rightarrow> KeyWatcher \<Rightarrow> bool" where
  "settled k loc s =
     ((k \<noteq> [] \<and> k \<noteq> ''Dead'' \<and> \<not> (k = ''__proto__'' \<and> k \<notin> keysOf s)
         \<longrightarrow> bit (toInt32 (map_of (activeKeys s) k)) (nat (loc mod 32)))
      \<and> (isNamedKey k \<longrightarrow> \<not> unnamedActive s))"

text \<open>
  The mapping \<open>agrees\<close> with a list of pressed pairs when every entry is a number
  other than zero, bit \<open>i\<close> of the entry of \<open>k\<close> is set exactly when \<open>(k, i)\<close> is
  pressed, and every pressed location is one of 0 to 31.
\<close>

definition agrees :: "KeyWatcher \<Rightarrow> (string \<times> int) list \<Rightarrow> bool" where
  "agrees s P =
     ((\<forall>k. map_of (activeKeys s) k \<noteq> Some (Num 0) \<and> map_of (activeKeys s) k \<noteq> Some Obj)
      \<and> (\<forall>k i. i < 32 \<longrightarrow> bit (toInt32 (map_of (activeKeys s) k)) i = ((k, int i) \<in> set P))
      \<and> (\<forall>p\<in>set P. 0 \<le> snd p \<and> snd p < 32))"

section \<open>What the methods compute\<close>

subsection \<open>The loops\<close>

lemma removeAllLoop_filter: "removeAllLoop ks m = filter (\<lambda>p. fst p \<notin> set ks) m"
  by (induction ks arbitrary: m) (auto simp: AList.delete_eq case_prod_unfold intro: filter_cong)

lemma removeAllLoop_keys: "removeAllLoop (map fst m) m = []"
  by (simp add: removeAllLoop_filter)

lemma handleBlur_eq: "handleBlur s = s\<lparr>activeKeys := [], dispatched := dispatched s + 1\<rparr>"
  by (simp add: handleBlur_def removeAll_keys_def dispatch_def removeAllLoop_keys)

lemma removeUnnamedLoop_fst:
  "fst (removeUnnamedLoop ks m r) = filter (\<lambda>p. fst p \<in> set ks \<longrightarrow> isNamedKey (fst p)) m"
  by (induction ks arbitrary: m r) (auto simp: AList.delete_eq case_prod_unfold intro: filter_cong)

lemma removeUnnamedLoop_snd:
  "snd (removeUnnamedLoop ks m r) = (r \<or> list_ex (\<lambda>k. \<not> isNamedKey k) ks)"
  by (induction ks arbitrary: m r) auto

lemma removeUnnamedKeys_eq:
  "removeUnnamedKeys s =
     (unnamedActive s, s\<lparr>activeKeys := filter (\<lambda>p. isNamedKey (fst p)) (activeKeys s)\<rparr>)"
proof -
  have "filter (\<lambda>p. fst p \<in> set (map fst (activeKeys s)) \<longrightarrow> isNamedKey (fst p)) (activeKeys s)
        = filter (\<lambda>p. isNamedKey (fst p)) (activeKeys s)"
    by (rule filter_cong) auto
  moreover have "list_ex (\<lambda>k. \<not> isNamedKey k) (map fst (activeKeys s)) = unnamedActive s"
    by (simp add: unnamedActive_def list_ex_iff)
  ultimately show ?thesis
    using removeUnnamedLoop_fst [of "map fst (activeKeys s)" "activeKeys s" False]
          removeUnnamedLoop_snd [of "map fst (activeKeys s)" "activeKeys s" False]
    by (simp add: removeUnnamedKeys_def case_prod_unfold)
qed

lemma handleModifiers_eq:
  "handleModifiers k s =
     ((if k = ''Dead'' then None else Some k, isNamedKey k \<and> unnamedActive s),
      if isNamedKey k then s\<lparr>activeKeys := filter (\<lambda>p. isNamedKey (fst p)) (activeKeys s)\<rparr> else s)"
  by (simp add: handleModifiers_def removeUnnamedKeys_eq)

subsection \<open>The shift and the location bit\<close>

lemma js_shl_mod: "js_shl x n = push_bit (nat (n mod 32)) x"
proof -
  have "(word_of_int n :: 32 word) AND 0x1F = word_of_int n AND mask 5"
    by (simp add: mask_eq_exp_minus_1)
  then have "unat ((word_of_int n :: 32 word) AND 0x1F) = nat (take_bit 5 n)"
    by (simp only: and_mask_wi) (simp add: unsigned_of_int take_bit_take_bit)
  then show ?thesis
    by (simp add: js_shl_def take_bit_eq_mod)
qed

lemma bit_js_shl_1: "bit (js_shl 1 n) i \<longleftrightarrow> i = nat (n mod 32)"
proof -
  have "nat (n mod 32) < 32" by simp
  then show ?thesis
    unfolding js_shl_mod by (auto simp add: bit_exp_iff)
qed

lemma js_shl_1_nonzero: "js_shl 1 n \<noteq> 0"
  using bit_js_shl_1 [of n "nat (n mod 32)"] by auto

lemma or_bit_absorb:
  fixes w :: "32 word"
  assumes "w AND js_shl 1 n \<noteq> 0"
  shows "w OR js_shl 1 n = w"
proof -
  from assms obtain i where "bit (w AND js_shl 1 n) i"
    by (auto simp: bit_eq_iff)
  then have "bit w (nat (n mod 32))"
    by (auto simp add: bit_and_iff bit_js_shl_1)
  then show ?thesis
    by (intro bit_word_eqI) (auto simp: bit_or_iff bit_js_shl_1)
qed

subsection \<open>The named keys of the mapping\<close>

lemma filter_named_restrict:
  "filter (\<lambda>p. isNamedKey (fst p)) m = AList.restrict (Collect isNamedKey) m"
  by (simp add: AList.restrict_eq case_prod_unfold)

lemma map_of_filter_named:
  "map_of (filter (\<lambda>p. isNamedKey (fst p)) m) = map_of m |` Collect isNamedKey"
  by (simp add: filter_named_restrict restr_conv')

lemma keysOf_dom: "keysOf s = dom (map_of (activeKeys s))"
  by (simp add: keysOf_def dom_map_of_conv_image_fst)

lemma filter_named_id:
  "\<not> unnamedActive s \<Longrightarrow> filter (\<lambda>p. isNamedKey (fst p)) (activeKeys s) = activeKeys s"
  by (simp add: unnamedActive_def list_ex_iff filter_id_conv)

lemma keysOf_map_of_None: "k \<notin> keysOf s \<longleftrightarrow> map_of (activeKeys s) k = None"
  by (simp add: keysOf_def map_of_eq_None_iff)

subsection \<open>Reads and writes of a property\<close>

lemma toInt32_getProp: "toInt32 (getProp m k) = toInt32 (map_of m k)"
  by (cases "map_of m k") (auto simp: getProp_def)

lemma toInt32_orZero: "toInt32 (Some (orZero x)) = toInt32 x"
proof (cases x)
  case None
  then show ?thesis by simp
next
  case (Some v)
  then show ?thesis by (cases v) (simp_all add: truthy_def)
qed

lemma map_of_setProp:
  "map_of (setProp k v m) =
     (if k = ''__proto__'' \<and> map_of m k = None then map_of m else (map_of m)(k \<mapsto> v))"
  by (auto simp: setProp_def update_conv')

lemma getProp_own: "map_of m k = Some v \<Longrightarrow> getProp m k = Some v"
  by (simp add: getProp_def)

lemma truthyVal_iff: "truthyVal x = (x = Some Obj \<or> (\<exists>w. x = Some (Num w) \<and> w \<noteq> 0))"
proof (cases x)
  case None
  then show ?thesis by simp
next
  case (Some v)
  then show ?thesis by (cases v) (simp_all add: truthy_def)
qed

lemma truthyVal_getProp:
  "truthyVal (getProp m k) =
     (truthyVal (map_of m k)
      \<or> (map_of m k = None \<and> (k = ''__proto__'' \<or> k \<in> set inheritedFunctions)))"
  by (cases "map_of m k") (auto simp: getProp_def)

lemma getProp_setProp:
  "getProp (setProp k v m) k =
     (if k = ''__proto__'' \<and> map_of m k = None then Some Obj else Some v)"
  by (auto simp: getProp_def setProp_def update_conv')

subsection \<open>The mapping after a key-down and after a key-up\<close>

lemma keydown_core:
  assumes hm: "handleModifiers k s = ((Some k, c0), s1)" and k: "k \<noteq> []"
  shows "map_of (activeKeys (handleKeydown k loc s)) =
           (if k = ''__proto__'' \<and> map_of (activeKeys s1) k = None then map_of (activeKeys s1)
            else (map_of (activeKeys s1))(k \<mapsto> Num (toInt32 (map_of (activeKeys s1) k) OR js_shl 1 loc)))"
proof -
  let ?m = "activeKeys s1"
  let ?w = "orZero (getProp ?m k)"
  let ?m1 = "setProp k ?w ?m"
  let ?b = "js_shl 1 loc :: 32 word"
  have w: "toInt32 (getProp ?m1 k) = toInt32 (map_of ?m k)"
    by (simp only: toInt32_getProp map_of_setProp toInt32_orZero fun_upd_same if_distrib [of toInt32]
        split: if_splits) (simp add: toInt32_orZero toInt32_getProp)
  have step: "map_of (activeKeys (handleKeydown k loc s)) =
          (if toInt32 (map_of ?m k) AND ?b = 0
           then map_of (setProp k (Num (toInt32 (map_of ?m k) OR ?b)) ?m1)
           else map_of ?m1)"
    unfolding handleKeydown_def hm using k
    by (simp add: Let_def dispatch_def truthy_def w del: orZero.simps)
  show ?thesis
  proof (cases "toInt32 (map_of ?m k) AND ?b = 0")
    case True
    then show ?thesis
      unfolding step by (auto simp: map_of_setProp)
  next
    case False
    then have "toInt32 (map_of ?m k) \<noteq> 0" by auto
    then obtain v where v: "map_of ?m k = Some (Num v)" "v \<noteq> 0"
      by (cases "map_of ?m k" rule: toInt32.cases) auto
    from False v have "v OR ?b = v"
      by (simp add: or_bit_absorb)
    with False v show ?thesis
      unfolding step by (simp add: map_of_setProp getProp_own truthy_def)
  qed
qed

lemma keydown_skip:
  assumes "handleModifiers k s = ((nk, c0), s1)" and "\<not> truthyKey nk"
  shows "handleKeydown k loc s = (if c0 then dispatch s1 else s1)"
  using assms(2) unfolding handleKeydown_def assms(1)
  by (cases nk) simp_all

lemma keyup_skip:
  assumes "handleModifiers k s = ((nk, c0), s1)" and "\<not> truthyKey nk"
  shows "handleKeyup k loc s = (if c0 then dispatch s1 else s1)"
  using assms(2) unfolding handleKeyup_def assms(1)
  by (cases nk) simp_all

lemma activeKeys_dispatch: "activeKeys (dispatch s) = activeKeys s"
  by (simp add: dispatch_def)

lemma keydown_map:
  "map_of (activeKeys (handleKeydown k loc s)) =
     (let M = (if isNamedKey k then map_of (activeKeys s) |` Collect isNamedKey
               else map_of (activeKeys s))
      in if k = ''Dead'' \<or> k = [] \<or> (k = ''__proto__'' \<and> M k = None) then M
         else M(k \<mapsto> Num (toInt32 (M k) OR js_shl 1 loc)))"
proof -
  obtain c0 s1 where hm: "handleModifiers k s = ((if k = ''Dead'' then None else Some k, c0), s1)"
    and s1: "s1 = (if isNamedKey k
                   then s\<lparr>activeKeys := filter (\<lambda>p. isNamedKey (fst p)) (activeKeys s)\<rparr> else s)"
    by (simp add: handleModifiers_eq)
  have M: "map_of (activeKeys s1) = (if isNamedKey k then map_of (activeKeys s) |` Collect isNamedKey
               else map_of (activeKeys s))"
    by (simp add: s1 map_of_filter_named)
  show ?thesis
  proof (cases "k = ''Dead'' \<or> k = []")
    case True
    then have "\<not> truthyKey (if k = ''Dead'' then None else Some k)"
      by auto
    from keydown_skip [OF hm this] True show ?thesis
      by (auto simp: M [symmetric] activeKeys_dispatch Let_def)
  next
    case False
    then have hm': "handleModifiers k s = ((Some k, c0), s1)" and k: "k \<noteq> []"
      using hm by simp_all
    from keydown_core [OF hm' k] False show ?thesis
      by (simp add: M [symmetric] Let_def)
  qed
qed

lemma keyup_core:
  assumes hm: "handleModifiers k s = ((Some k, c0), s1)" and k: "k \<noteq> []"
  shows "map_of (activeKeys (handleKeyup k loc s)) =
           (if \<not> truthyVal (map_of (activeKeys s1) k) then map_of (activeKeys s1)
            else if toInt32 (map_of (activeKeys s1) k) AND NOT (js_shl 1 loc) = 0
                 then (map_of (activeKeys s1))(k := None)
                 else (map_of (activeKeys s1))
                        (k \<mapsto> Num (toInt32 (map_of (activeKeys s1) k) AND NOT (js_shl 1 loc))))"
proof -
  let ?m = "activeKeys s1"
  let ?v = "toInt32 (map_of ?m k) AND NOT (js_shl 1 loc)"
  let ?m1 = "setProp k (Num ?v) ?m"
  show ?thesis
  proof (cases "truthyVal (getProp ?m k)")
    case False
    then have "handleKeyup k loc s = (if c0 then dispatch s1 else s1)"
      unfolding handleKeyup_def hm using k by simp
    moreover from False have "\<not> truthyVal (map_of ?m k)"
      by (simp add: truthyVal_getProp)
    ultimately show ?thesis
      by (simp add: activeKeys_dispatch)
  next
    case True
    have step: "map_of (activeKeys (handleKeyup k loc s)) =
        (if \<not> truthyVal (getProp ?m1 k) then map_of (AList.delete k ?m1) else map_of ?m1)"
      unfolding handleKeyup_def hm using k True
      by (simp add: Let_def dispatch_def toInt32_getProp)
    show ?thesis
    proof (cases "map_of ?m k")
      case None
      then have "?v = 0" by simp
      with None show ?thesis
        unfolding step
        by (auto simp: getProp_setProp map_of_setProp delete_conv' truthy_def)
    next
      case (Some v)
      with True show ?thesis
        unfolding step
        by (cases v) (auto simp: getProp_own getProp_setProp map_of_setProp delete_conv' truthy_def)
    qed
  qed
qed

lemma keyup_map:
  "map_of (activeKeys (handleKeyup k loc s)) =
     (let M = (if isNamedKey k then map_of (activeKeys s) |` Collect isNamedKey
               else map_of (activeKeys s))
      in if k = ''Dead'' \<or> k = [] \<or> \<not> truthyVal (M k) then M
         else if toInt32 (M k) AND NOT (js_shl 1 loc) = 0 then M(k := None)
         else M(k \<mapsto> Num (toInt32 (M k) AND NOT (js_shl 1 loc))))"
proof -
  obtain c0 s1 where hm: "handleModifiers k s = ((if k = ''Dead'' then None else Some k, c0), s1)"
    and s1: "s1 = (if isNamedKey k
                   then s\<lparr>activeKeys := filter (\<lambda>p. isNamedKey (fst p)) (activeKeys s)\<rparr> else s)"
    by (simp add: handleModifiers_eq)
  have M: "map_of (activeKeys s1) = (if isNamedKey k then map_of (activeKeys s) |` Collect isNamedKey
               else map_of (activeKeys s))"
    by (simp add: s1 map_of_filter_named)
  show ?thesis
  proof (cases "k = ''Dead'' \<or> k = []")
    case True
    then have "\<not> truthyKey (if k = ''Dead'' then None else Some k)"
      by auto
    from keyup_skip [OF hm this] True show ?thesis
      by (auto simp: M [symmetric] activeKeys_dispatch Let_def)
  next
    case False
    then have hm': "handleModifiers k s = ((Some k, c0), s1)" and k: "k \<noteq> []"
      using hm by simp_all
    from keyup_core [OF hm' k] False show ?thesis
      by (simp add: M [symmetric] Let_def)
  qed
qed

subsection \<open>The entry point\<close>

lemma toUpperCase_kbm:
  "toUpperCase CHR ''k'' = CHR ''K''"
  "toUpperCase CHR ''b'' = CHR ''B''"
  "toUpperCase CHR ''m'' = CHR ''M''"
  by code_simp+

lemma handleEvent_tracked:
  "tracked evt \<Longrightarrow> handleEvent evt s =
     Inr (if type evt = ''keydown'' then handleKeydown (key evt) (location evt) s
          else if type evt = ''keyup'' then handleKeyup (key evt) (location evt) s
          else handleBlur s)"
  by (auto simp: tracked_def handleEvent_def toUpperCase_kbm)

text \<open>
  An event whose computed handler name is none of the four members is answered with the
  warning and nothing else.
\<close>

lemma handleEvent_warns:
  assumes "type evt \<noteq> []"
    and "toUpperCase (hd (type evt)) # tl (type evt)
           \<notin> {''Keydown'', ''Keyup'', ''Blur'', ''Modifiers''}"
  shows "handleEvent evt s
           = Inr (s\<lparr>warnings := warnings s @ [''No handler for '' @ type evt @ '' on KeyWatcher.'']\<rparr>)"
  using assms by (cases "type evt") (auto simp: handleEvent_def Let_def)

subsection \<open>Invariants of the tracked events\<close>

text \<open>
  A property of the state that the three handlers preserve holds after every sequence of
  \<open>keydown\<close>, \<open>keyup\<close> and \<open>blur\<close> events, and such a sequence never ends in an
  exception.
\<close>

lemma replay_tracked_invariant:
  assumes "list_all tracked evts" and "I s"
    and down: "\<And>k loc s. I s \<Longrightarrow> I (handleKeydown k loc s)"
    and up: "\<And>k loc s. I s \<Longrightarrow> I (handleKeyup k loc s)"
    and blur: "\<And>s. I s \<Longrightarrow> I (handleBlur s)"
  shows "\<exists>s'. replay evts s = Inr s' \<and> I s'"
  using assms(1,2)
proof (induction evts arbitrary: s)
  case Nil
  then show ?case by simp
next
  case (Cons evt evts)
  from Cons.prems have t: "tracked evt" and rest: "list_all tracked evts"
    by simp_all
  let ?s = "if type evt = ''keydown'' then handleKeydown (key evt) (location evt) s
            else if type evt = ''keyup'' then handleKeyup (key evt) (location evt) s
            else handleBlur s"
  have "I ?s"
    using Cons.prems(2) down up blur by simp
  from Cons.IH [OF rest this] show ?case
    by (simp add: handleEvent_tracked [OF t])
qed

lemma list_all_take: "list_all P xs \<Longrightarrow> list_all P (take n xs)"
  by (auto simp: list_all_iff dest: in_set_takeD)

lemma Dead_keydown: "''Dead'' \<notin> keysOf s \<Longrightarrow> ''Dead'' \<notin> keysOf (handleKeydown k loc s)"
  by (auto simp: keysOf_dom keydown_map Let_def restrict_map_def split: if_splits)

lemma Dead_keyup: "''Dead'' \<notin> keysOf s \<Longrightarrow> ''Dead'' \<notin> keysOf (handleKeyup k loc s)"
  by (auto simp: keysOf_dom keyup_map Let_def restrict_map_def split: if_splits)

lemma keysOf_blur: "keysOf (handleBlur s) = {}"
  by (simp add: keysOf_def handleBlur_eq)

lemma entries_keydown:
  assumes "\<forall>k'. map_of (activeKeys s) k' \<noteq> Some (Num 0) \<and> map_of (activeKeys s) k' \<noteq> Some Obj"
  shows "map_of (activeKeys (handleKeydown k loc s)) k' \<noteq> Some (Num 0)
         \<and> map_of (activeKeys (handleKeydown k loc s)) k' \<noteq> Some Obj"
proof -
  have "x OR js_shl 1 loc \<noteq> 0" for x :: "32 word"
    using js_shl_1_nonzero [of loc] by (simp add: or_eq_0_iff)
  with assms show ?thesis
    by (auto simp: keydown_map Let_def restrict_map_def)
qed

lemma entries_keyup:
  assumes "\<forall>k'. map_of (activeKeys s) k' \<noteq> Some (Num 0) \<and> map_of (activeKeys s) k' \<noteq> Some Obj"
  shows "map_of (activeKeys (handleKeyup k loc s)) k' \<noteq> Some (Num 0)
         \<and> map_of (activeKeys (handleKeyup k loc s)) k' \<noteq> Some Obj"
  using assms by (auto simp: keyup_map Let_def restrict_map_def)

lemma present_iff_bit:
  assumes "\<forall>k'. map_of (activeKeys s) k' \<noteq> Some (Num 0) \<and> map_of (activeKeys s) k' \<noteq> Some Obj"
  shows "(k \<in> keysOf s) = (\<exists>i<32. bit (toInt32 (map_of (activeKeys s) k)) i)"
proof (cases "map_of (activeKeys s) k")
  case None
  then show ?thesis by (simp add: keysOf_dom domIff)
next
  case (Some v)
  with assms obtain w where w: "v = Num w" "w \<noteq> 0"
    by (cases v) auto
  then obtain i where "bit w i"
    by (auto simp: bit_eq_iff)
  moreover from this have "i < 32"
    using bit_imp_le_length [of w i] by simp
  ultimately show ?thesis
    using Some w by (auto simp: keysOf_dom)
qed

subsection \<open>A key-down that finds its bit set\<close>

lemma unnamedActive_iff: "unnamedActive s = (\<exists>k\<in>keysOf s. \<not> isNamedKey k)"
  by (auto simp: unnamedActive_def keysOf_def list_ex_iff)

lemma and_js_shl_1: "(v AND js_shl 1 loc \<noteq> 0) = bit v (nat (loc mod 32))"
proof
  assume "v AND js_shl 1 loc \<noteq> 0"
  then obtain i where "bit (v AND js_shl 1 loc) i"
    by (auto simp: bit_eq_iff)
  then show "bit v (nat (loc mod 32))"
    by (auto simp: bit_and_iff bit_js_shl_1)
next
  assume "bit v (nat (loc mod 32))"
  then have "bit (v AND js_shl 1 loc) (nat (loc mod 32))"
    by (simp add: bit_and_iff bit_js_shl_1)
  then show "v AND js_shl 1 loc \<noteq> 0"
    by auto
qed

lemma bit_toInt32_Some: "bit (toInt32 x) i \<Longrightarrow> \<exists>v. x = Some (Num v) \<and> bit v i \<and> v \<noteq> 0"
  by (cases x rule: toInt32.cases) auto

lemma handleModifiers_quiet:
  assumes "\<not> (isNamedKey k \<and> unnamedActive s)"
  shows "handleModifiers k s = ((if k = ''Dead'' then None else Some k, False), s)"
  using assms by (auto simp: handleModifiers_eq filter_named_id)

lemma settled_noop:
  assumes "settled k loc s"
  shows "handleKeydown k loc s = s"
proof -
  from assms have "\<not> (isNamedKey k \<and> unnamedActive s)"
    by (simp add: settled_def)
  note hm = handleModifiers_quiet [OF this]
  consider "k = [] \<or> k = ''Dead''"
    | "k \<noteq> []" "k \<noteq> ''Dead''" "k = ''__proto__''" "map_of (activeKeys s) k = None"
    | "k \<noteq> []" "k \<noteq> ''Dead''" "bit (toInt32 (map_of (activeKeys s) k)) (nat (loc mod 32))"
    using assms by (auto simp: settled_def keysOf_map_of_None)
  then show ?thesis
  proof cases
    case 1
    then have "\<not> truthyKey (if k = ''Dead'' then None else Some k)"
      by auto
    from keydown_skip [OF hm this] show ?thesis
      by simp
  next
    case 2
    then have hm': "handleModifiers k s = ((Some k, False), s)"
      using hm by simp
    from 2 have g: "getProp (activeKeys s) k = Some Obj"
      by (simp add: getProp_def)
    from 2 have p: "setProp k v (activeKeys s) = activeKeys s" for v
      by (simp add: setProp_def)
    show ?thesis
      unfolding handleKeydown_def hm' using 2(1)
      by (simp add: g p Let_def)
  next
    case 3
    then have hm': "handleModifiers k s = ((Some k, False), s)"
      using hm by simp
    from 3 obtain v where v: "map_of (activeKeys s) k = Some (Num v)"
        "bit v (nat (loc mod 32))" "v \<noteq> 0"
      using bit_toInt32_Some by blast
    then have a: "v AND js_shl 1 loc \<noteq> 0"
      by (simp add: and_js_shl_1)
    from v have g: "getProp (activeKeys s) k = Some (Num v)"
      by (simp add: getProp_own)
    from v have p: "setProp k (Num v) (activeKeys s) = activeKeys s"
      by (simp add: setProp_def update_triv)
    show ?thesis
      unfolding handleKeydown_def hm' using 3(1) v(3) a
      by (simp add: g p Let_def truthy_def)
  qed
qed

lemma settled_after_keydown: "settled k loc (handleKeydown k loc s)"
proof -
  have "bit (toInt32 (map_of (activeKeys (handleKeydown k loc s)) k)) (nat (loc mod 32))"
    if "k \<noteq> []" "k \<noteq> ''Dead''"
      "\<not> (k = ''__proto__'' \<and> k \<notin> keysOf (handleKeydown k loc s))"
    using that
    by (auto simp: keysOf_dom keydown_map Let_def bit_or_iff bit_js_shl_1 split: if_splits)
  moreover have "\<not> unnamedActive (handleKeydown k loc s)" if "isNamedKey k"
    using that
    by (auto simp: unnamedActive_iff keysOf_dom keydown_map Let_def restrict_map_def
        split: if_splits)
  ultimately show ?thesis
    by (simp add: settled_def)
qed

text \<open>In particular a key-down handled twice in a row does the same as handled once.\<close>

lemma handleKeydown_idem: "handleKeydown k loc (handleKeydown k loc s) = handleKeydown k loc s"
  by (rule settled_noop [OF settled_after_keydown])

lemma nat_mod32_inj: "nat (a mod 32) = nat (b mod 32) \<longleftrightarrow> a mod 32 = b mod 32"
  by (simp add: nat_eq_iff)

lemma settled_cases:
  assumes "settled k loc s" and "k \<noteq> []" and "k \<noteq> ''Dead''"
  obtains "k = ''__proto__''" and "map_of (activeKeys s) k = None"
  | v where "map_of (activeKeys s) k = Some (Num v)" and "bit v (nat (loc mod 32))" and "v \<noteq> 0"
proof (cases "k = ''__proto__'' \<and> k \<notin> keysOf s")
  case True
  then have "k = ''__proto__''" and "map_of (activeKeys s) k = None"
    by (auto simp: keysOf_map_of_None)
  then show ?thesis
    by (rule that(1))
next
  case False
  with assms have "bit (toInt32 (map_of (activeKeys s) k)) (nat (loc mod 32))"
    by (auto simp: settled_def)
  then show ?thesis
    using bit_toInt32_Some that(2) by blast
qed

lemma keysOf_keydown_subset:
  "keysOf (handleKeydown k loc s) \<subseteq> keysOf s \<union> (if k = [] then {} else {k})"
  by (auto simp: keysOf_dom keydown_map Let_def restrict_map_def split: if_splits)

lemma proto_absent_keydown:
  assumes "map_of (activeKeys s) ''__proto__'' = None"
  shows "map_of (activeKeys (handleKeydown k loc s)) ''__proto__'' = None"
  using assms by (auto simp: keydown_map Let_def restrict_map_def)

lemma bit_kept_keydown:
  assumes "map_of (activeKeys s) k = Some (Num v)" and "bit v n"
    and "isNamedKey k' \<longrightarrow> isNamedKey k"
  shows "bit (toInt32 (map_of (activeKeys (handleKeydown k' loc s)) k)) n"
  using assms by (auto simp: keydown_map Let_def restrict_map_def bit_or_iff)

lemma settled_keydown:
  assumes "settled k loc s" and "leavesAlone k loc evt" and "type evt = ''keydown''"
  shows "settled k loc (handleKeydown (key evt) (location evt) s)"
proof -
  let ?s' = "handleKeydown (key evt) (location evt) s"
  have "bit (toInt32 (map_of (activeKeys ?s') k)) (nat (loc mod 32))"
    if k: "k \<noteq> []" "k \<noteq> ''Dead''" and p: "\<not> (k = ''__proto__'' \<and> k \<notin> keysOf ?s')"
  proof -
    from assms(2) have named: "isNamedKey (key evt) \<longrightarrow> isNamedKey k"
      by (auto simp: leavesAlone_def split: if_splits)
    from assms(1) k show ?thesis
    proof (cases rule: settled_cases)
      case 1
      then have "map_of (activeKeys ?s') k = None"
        using proto_absent_keydown by simp
      then have "k \<notin> keysOf ?s'"
        by (simp add: keysOf_map_of_None)
      with 1 p show ?thesis by simp
    next
      case (2 v)
      from bit_kept_keydown [OF 2(1,2) named] show ?thesis .
    qed
  qed
  moreover have "\<not> unnamedActive ?s'" if n: "isNamedKey k"
  proof -
    from assms(1) n have "\<forall>k'\<in>keysOf s. isNamedKey k'"
      by (simp add: settled_def unnamedActive_iff)
    moreover from assms(2,3) n have "key evt = [] \<or> isNamedKey (key evt)"
      by (auto simp: leavesAlone_def)
    ultimately show ?thesis
      using keysOf_keydown_subset [of "key evt" "location evt" s]
      by (auto simp: unnamedActive_iff split: if_splits)
  qed
  ultimately show ?thesis
    by (simp add: settled_def)
qed

lemma keysOf_keyup_subset: "keysOf (handleKeyup k loc s) \<subseteq> keysOf s"
  by (auto simp: keysOf_dom keyup_map Let_def restrict_map_def truthyVal_iff split: if_splits)

lemma settled_keyup:
  assumes "settled k loc s" and "leavesAlone k loc evt" and "type evt = ''keyup''"
  shows "settled k loc (handleKeyup (key evt) (location evt) s)"
proof -
  let ?s' = "handleKeyup (key evt) (location evt) s"
  have "bit (toInt32 (map_of (activeKeys ?s') k)) (nat (loc mod 32))"
    if k: "k \<noteq> []" "k \<noteq> ''Dead''" and p: "\<not> (k = ''__proto__'' \<and> k \<notin> keysOf ?s')"
  proof -
    from assms(2) have named: "isNamedKey (key evt) \<Longrightarrow> isNamedKey k"
      by (auto simp: leavesAlone_def split: if_splits)
    from assms(2,3) have other: "key evt = k \<Longrightarrow> nat (location evt mod 32) \<noteq> nat (loc mod 32)"
      by (simp add: leavesAlone_def nat_mod32_inj)
    from assms(1) k show ?thesis
    proof (cases rule: settled_cases)
      case 1
      then have "k \<notin> keysOf s"
        by (simp add: keysOf_map_of_None)
      with keysOf_keyup_subset [of "key evt" "location evt" s] have "k \<notin> keysOf ?s'"
        by blast
      with 1 p show ?thesis by simp
    next
      case (2 v)
      have keep: "bit (v AND NOT (js_shl 1 (location evt))) (nat (loc mod 32))" if "key evt = k"
        using 2 other [OF that] by (simp add: bit_and_iff bit_not_iff bit_js_shl_1)
      then have "v AND NOT (js_shl 1 (location evt)) \<noteq> 0" if "key evt = k"
        using that by auto
      with 2 k named keep show ?thesis
        by (auto simp: keyup_map Let_def restrict_map_def truthy_def)
    qed
  qed
  moreover have "\<not> unnamedActive ?s'" if n: "isNamedKey k"
  proof -
    from assms(1) n have "\<forall>k'\<in>keysOf s. isNamedKey k'"
      by (simp add: settled_def unnamedActive_iff)
    then show ?thesis
      using keysOf_keyup_subset [of "key evt" "location evt" s]
      by (auto simp: unnamedActive_iff)
  qed
  ultimately show ?thesis
    by (simp add: settled_def)
qed

lemma settled_replay:
  assumes "list_all (leavesAlone k loc) evts" and "settled k loc s"
  shows "\<exists>s'. replay evts s = Inr s' \<and> settled k loc s'"
  using assms
proof (induction evts arbitrary: s)
  case Nil
  then show ?case by simp
next
  case (Cons evt evts)
  from Cons.prems have la: "leavesAlone k loc evt" and rest: "list_all (leavesAlone k loc) evts"
    by simp_all
  from la have t: "tracked evt" and ty: "type evt = ''keydown'' \<or> type evt = ''keyup''"
    by (auto simp: leavesAlone_def tracked_def)
  let ?s = "if type evt = ''keydown'' then handleKeydown (key evt) (location evt) s
            else handleKeyup (key evt) (location evt) s"
  have "settled k loc ?s"
    using ty settled_keydown [OF Cons.prems(2) la] settled_keyup [OF Cons.prems(2) la] by auto
  from Cons.IH [OF rest this] show ?case
    using ty by (auto simp: handleEvent_tracked [OF t])
qed

subsection \<open>The mapping and the pressed pairs\<close>

lemma agrees_keys:
  assumes "agrees s P"
  shows "keysOf s = fst ` set P"
proof (rule set_eqI)
  fix k
  from assms have nz: "\<forall>k'. map_of (activeKeys s) k' \<noteq> Some (Num 0) \<and> map_of (activeKeys s) k' \<noteq> Some Obj"
    and bits: "\<And>i. i < 32 \<Longrightarrow> bit (toInt32 (map_of (activeKeys s) k)) i = ((k, int i) \<in> set P)"
    and range: "\<And>l. (k, l) \<in> set P \<Longrightarrow> 0 \<le> l \<and> l < 32"
    by (auto simp: agrees_def)
  have "(k \<in> keysOf s) = (\<exists>i<32. (k, int i) \<in> set P)"
    using present_iff_bit [OF nz, of k] bits by auto
  also have "\<dots> = (\<exists>l. (k, l) \<in> set P)"
  proof
    assume "\<exists>l. (k, l) \<in> set P"
    then obtain l where l: "(k, l) \<in> set P" by blast
    from range [OF l] have "nat l < 32" "int (nat l) = l" by auto
    with l show "\<exists>i<32. (k, int i) \<in> set P" by metis
  qed blast
  also have "\<dots> = (k \<in> fst ` set P)"
    by force
  finally show "(k \<in> keysOf s) = (k \<in> fst ` set P)" .
qed

lemma agrees_restrict:
  assumes "agrees s P" and "list_all (\<lambda>p. isNamedKey (fst p)) P"
  shows "map_of (activeKeys s) |` Collect isNamedKey = map_of (activeKeys s)"
proof (rule ext)
  fix k
  show "(map_of (activeKeys s) |` Collect isNamedKey) k = map_of (activeKeys s) k"
  proof (cases "k \<in> keysOf s")
    case True
    then have "k \<in> fst ` set P"
      using agrees_keys [OF assms(1)] by simp
    with assms(2) have "isNamedKey k"
      by (auto simp: list_all_iff)
    then show ?thesis by (simp add: restrict_map_def)
  next
    case False
    then show ?thesis
      by (simp add: keysOf_map_of_None restrict_map_def)
  qed
qed

lemma agrees_keydown:
  assumes a: "agrees s P"
    and k: "k \<noteq> []" "k \<noteq> ''Dead''" "k \<noteq> ''__proto__''"
    and l: "0 \<le> l" "l < 32"
    and n: "isNamedKey k \<longrightarrow> list_all (\<lambda>p. isNamedKey (fst p)) P"
  shows "agrees (handleKeydown k l s) (List.insert (k, l) P)"
proof -
  let ?m = "map_of (activeKeys s)"
  have M: "(if isNamedKey k then ?m |` Collect isNamedKey else ?m) = ?m"
    using agrees_restrict [OF a] n by simp
  have after: "map_of (activeKeys (handleKeydown k l s)) = ?m(k \<mapsto> Num (toInt32 (?m k) OR js_shl 1 l))"
    using k by (simp add: keydown_map M Let_def)
  from l have nl: "nat (l mod 32) = nat l"
    by simp
  have "x OR js_shl 1 l \<noteq> 0" for x :: "32 word"
    using js_shl_1_nonzero [of l] by (simp add: or_eq_0_iff)
  moreover have "int i = l \<longleftrightarrow> i = nat l" for i
    using l by auto
  ultimately show ?thesis
    using a l unfolding agrees_def after
    by (auto simp: bit_or_iff bit_js_shl_1 nl)
qed

lemma agrees_keyup:
  assumes a: "agrees s P"
    and k: "k \<noteq> []" "k \<noteq> ''Dead''" "k \<noteq> ''__proto__''"
    and l: "0 \<le> l" "l < 32"
    and n: "isNamedKey k \<longrightarrow> list_all (\<lambda>p. isNamedKey (fst p)) P"
    and p: "(k, l) \<in> set P"
  shows "agrees (handleKeyup k l s) (removeAll (k, l) P)"
proof -
  let ?m = "map_of (activeKeys s)"
  let ?v = "toInt32 (?m k) AND NOT (js_shl 1 l)"
  have M: "(if isNamedKey k then ?m |` Collect isNamedKey else ?m) = ?m"
    using agrees_restrict [OF a] n by simp
  from l have nl: "nat (l mod 32) = nat l" and il: "int (nat l) = l" and nl32: "nat l < 32"
    by simp_all
  from a p nl32 il have "bit (toInt32 (?m k)) (nat l)"
    by (auto simp: agrees_def)
  then have "truthyVal (?m k)"
    using bit_toInt32_Some [of "?m k" "nat l"] by (auto simp: truthyVal_iff)
  with k have after: "map_of (activeKeys (handleKeyup k l s)) =
      (if ?v = 0 then ?m(k := None) else ?m(k \<mapsto> Num ?v))"
    by (simp add: keyup_map M Let_def)
  have eqv: "int i = l \<longleftrightarrow> i = nat l" for i
    using l by auto
  have bitv: "bit ?v i = (bit (toInt32 (?m k)) i \<and> i \<noteq> nat l)" if "i < 32" for i
    using that by (auto simp: bit_and_iff bit_not_iff bit_js_shl_1 nl)
  show ?thesis
  proof (cases "?v = 0")
    case True
    then have "\<not> bit ?v i" for i
      by simp
    then have "i < 32 \<Longrightarrow> bit (toInt32 (?m k)) i \<Longrightarrow> i = nat l" for i
      using bitv by blast
    with a True show ?thesis
      unfolding agrees_def after by (auto simp: eqv)
  next
    case False
    with a show ?thesis
      unfolding agrees_def after by (auto simp: eqv bitv)
  qed
qed

lemma agrees_replay:
  assumes "paired evts P" and "calm evts P" and "agrees s P"
  shows "\<exists>s'. replay evts s = Inr s' \<and> agrees s' (unreleased evts P)"
  using assms
proof (induction evts arbitrary: s P)
  case Nil
  then show ?case by simp
next
  case (Cons evt evts)
  from Cons.prems(1) have ty: "type evt = ''keydown'' \<or> type evt = ''keyup''"
    and rest: "paired evts (press evt P)"
    by auto
  from Cons.prems(2) have k: "key evt \<noteq> []" "key evt \<noteq> ''Dead''" "key evt \<noteq> ''__proto__''"
    and l: "0 \<le> location evt" "location evt < 32"
    and n: "isNamedKey (key evt) \<longrightarrow> list_all (\<lambda>p. isNamedKey (fst p)) P"
    and crest: "calm evts (press evt P)"
    by auto
  from ty have t: "tracked evt"
    by (auto simp: tracked_def)
  show ?case
  proof (cases "type evt = ''keydown''")
    case True
    have "agrees (handleKeydown (key evt) (location evt) s) (press evt P)"
      using agrees_keydown [OF Cons.prems(3) k l n] True by (simp add: press_def)
    from Cons.IH [OF rest crest this] show ?thesis
      using True by (simp add: handleEvent_tracked [OF t])
  next
    case False
    with ty Cons.prems(1) have up: "type evt = ''keyup''"
      and p: "(key evt, location evt) \<in> set P"
      by auto
    have "agrees (handleKeyup (key evt) (location evt) s) (press evt P)"
      using agrees_keyup [OF Cons.prems(3) k l n p] up by (simp add: press_def)
    from Cons.IH [OF rest crest this] show ?thesis
      using up by (simp add: handleEvent_tracked [OF t])
  qed
qed

subsection \<open>Keys that are names of members of the prototype\<close>

text \<open>
  On a fresh instance, the key-up of \<open>constructor\<close> reads the inherited function, which is
  truthy: it writes 0, deletes the entry again and dispatches a change event. The key-down of
  \<open>constructor\<close> finds the same function as \<open>wasActive\<close>: it stores the bit and dispatches
  nothing. The key-down of \<open>__proto__\<close> stores nothing.
\<close>

lemma keyup_of_inherited_function:
  "handleKeyup ''constructor'' 0 newKeyWatcher = \<lparr>activeKeys = [], dispatched = 1, warnings = []\<rparr>"
  by code_simp

lemma keydown_of_inherited_function:
  "handleKeydown ''constructor'' 0 newKeyWatcher
     = \<lparr>activeKeys = [(''constructor'', Num 1)], dispatched = 0, warnings = []\<rparr>"
  by code_simp

lemma keydown_of_proto: "handleKeydown ''__proto__'' 0 newKeyWatcher = newKeyWatcher"
  by code_simp

section \<open>The claims\<close>

subsection \<open>Focus loss\<close>

text \<open>
  Claim C1: after a focus-loss event the mapping is empty, and a change notification is
  emitted if and only if the mapping was non-empty before. \<open>_removeAll\<close> empties the
  mapping (\<open>handleBlur_eq\<close>) but calls \<open>_dispatch\<close> without looking at what it removed:
  on the empty mapping of a fresh instance, a \<open>blur\<close> event leaves the mapping empty and
  still dispatches one \<open>change\<close> event.
\<close>

theorem blur_on_empty_mapping_dispatches:
  "handleEvent \<lparr>type = ''blur'', key = [], location = 0\<rparr> newKeyWatcher
     = Inr \<lparr>activeKeys = [], dispatched = 1, warnings = []\<rparr>"
  by (simp add: handleEvent_def toUpperCase_kbm handleBlur_eq newKeyWatcher_def)

subsection \<open>Replaying key-downs and key-ups\<close>

text \<open>
  Claim C2, as stated: for every sequence of key-down and key-up events in which each key-up
  comes after a key-down of the same (key, location) pair, the keys of the mapping after the
  replay from the empty mapping are exactly the keys with a location that is pressed and not
  yet released. After the key-down of \<open>a\<close> and the key-down of Shift, both keys are
  pressed and neither is released, but the mapping holds Shift only: the named key has
  cleared \<open>a\<close>.
\<close>

theorem named_key_drops_unreleased_key:
  "paired [\<lparr>type = ''keydown'', key = ''a'', location = 0\<rparr>,
           \<lparr>type = ''keydown'', key = ''Shift'', location = 1\<rparr>] []
   \<and> replay [\<lparr>type = ''keydown'', key = ''a'', location = 0\<rparr>,
             \<lparr>type = ''keydown'', key = ''Shift'', location = 1\<rparr>] newKeyWatcher
       = Inr \<lparr>activeKeys = [(''Shift'', Num 2)], dispatched = 2, warnings = []\<rparr>
   \<and> keysOf \<lparr>activeKeys = [(''Shift'', Num 2)], dispatched = 2, warnings = []\<rparr>
       \<noteq> fst ` set (unreleased [\<lparr>type = ''keydown'', key = ''a'', location = 0\<rparr>,
                               \<lparr>type = ''keydown'', key = ''Shift'', location = 1\<rparr>] [])"
  by code_simp

text \<open>
  Claim C2, amended: the statement holds for the sequences that are also \<open>calm\<close>: every
  key is a non-empty identifier other than \<open>Dead\<close> and \<open>__proto__\<close>, every location is
  one of 0 to 31, and no event of a named key arrives while an unnamed key is pressed and not
  yet released.
\<close>

theorem replay_tracks_unreleased:
  assumes "paired evts []" and "calm evts []"
  shows "\<exists>s. replay evts newKeyWatcher = Inr s \<and> keysOf s = fst ` set (unreleased evts [])"
proof -
  have "agrees newKeyWatcher []"
    by (simp add: agrees_def newKeyWatcher_def)
  from agrees_replay [OF assms this] show ?thesis
    using agrees_keys by blast
qed

theorem replay_tracks_unreleased_witness:
  "paired [\<lparr>type = ''keydown'', key = ''Shift'', location = 1\<rparr>,
           \<lparr>type = ''keydown'', key = ''Shift'', location = 2\<rparr>,
           \<lparr>type = ''keyup'', key = ''Shift'', location = 1\<rparr>,
           \<lparr>type = ''keydown'', key = ''a'', location = 0\<rparr>] []
   \<and> calm [\<lparr>type = ''keydown'', key = ''Shift'', location = 1\<rparr>,
           \<lparr>type = ''keydown'', key = ''Shift'', location = 2\<rparr>,
           \<lparr>type = ''keyup'', key = ''Shift'', location = 1\<rparr>,
           \<lparr>type = ''keydown'', key = ''a'', location = 0\<rparr>] []
   \<and> (\<exists>s. replay [\<lparr>type = ''keydown'', key = ''Shift'', location = 1\<rparr>,
                   \<lparr>type = ''keydown'', key = ''Shift'', location = 2\<rparr>,
                   \<lparr>type = ''keyup'', key = ''Shift'', location = 1\<rparr>,
                   \<lparr>type = ''keydown'', key = ''a'', location = 0\<rparr>] newKeyWatcher = Inr s
          \<and> keysOf s = fst ` set (unreleased
                  [\<lparr>type = ''keydown'', key = ''Shift'', location = 1\<rparr>,
                   \<lparr>type = ''keydown'', key = ''Shift'', location = 2\<rparr>,
                   \<lparr>type = ''keyup'', key = ''Shift'', location = 1\<rparr>,
                   \<lparr>type = ''keydown'', key = ''a'', location = 0\<rparr>] []))"
proof -
  have p: "paired [\<lparr>type = ''keydown'', key = ''Shift'', location = 1\<rparr>,
           \<lparr>type = ''keydown'', key = ''Shift'', location = 2\<rparr>,
           \<lparr>type = ''keyup'', key = ''Shift'', location = 1\<rparr>,
           \<lparr>type = ''keydown'', key = ''a'', location = 0\<rparr>] []"
    by code_simp
  have c: "calm [\<lparr>type = ''keydown'', key = ''Shift'', location = 1\<rparr>,
           \<lparr>type = ''keydown'', key = ''Shift'', location = 2\<rparr>,
           \<lparr>type = ''keyup'', key = ''Shift'', location = 1\<rparr>,
           \<lparr>type = ''keydown'', key = ''a'', location = 0\<rparr>] []"
    by code_simp
  from replay_tracks_unreleased [OF p c] p c show ?thesis
    by blast
qed

subsection \<open>The two Shift keys\<close>

text \<open>
  Claim C3, as stated: from the empty mapping, key-down of Shift at location 1 and then at
  location 2 give \<open>{Shift: 0b110}\<close> with a change notification after each of the two
  steps. The second key-down finds Shift active (\<open>wasActive\<close> is truthy) and sets the bit
  without marking a change: it dispatches nothing.
\<close>

theorem shift_second_keydown_silent:
  "dispatched (handleKeydown ''Shift'' 2 (handleKeydown ''Shift'' 1 newKeyWatcher))
     \<noteq> dispatched (handleKeydown ''Shift'' 1 newKeyWatcher) + 1"
  by code_simp

text \<open>
  Claim C3, amended: the first key-down gives \<open>{Shift: 0b010}\<close> and one notification, the
  second gives \<open>{Shift: 0b110}\<close> and no notification; the key-up at location 1 gives
  \<open>{Shift: 0b100}\<close>, keeps the entry and notifies nobody; the key-up at location 2 gives
  the empty mapping and the second notification.
\<close>

theorem shift_example:
  "handleKeydown ''Shift'' 1 newKeyWatcher
     = \<lparr>activeKeys = [(''Shift'', Num 0b010)], dispatched = 1, warnings = []\<rparr>
   \<and> handleKeydown ''Shift'' 2 \<lparr>activeKeys = [(''Shift'', Num 0b010)], dispatched = 1, warnings = []\<rparr>
     = \<lparr>activeKeys = [(''Shift'', Num 0b110)], dispatched = 1, warnings = []\<rparr>
   \<and> handleKeyup ''Shift'' 1 \<lparr>activeKeys = [(''Shift'', Num 0b110)], dispatched = 1, warnings = []\<rparr>
     = \<lparr>activeKeys = [(''Shift'', Num 0b100)], dispatched = 1, warnings = []\<rparr>
   \<and> handleKeyup ''Shift'' 2 \<lparr>activeKeys = [(''Shift'', Num 0b100)], dispatched = 1, warnings = []\<rparr>
     = \<lparr>activeKeys = [], dispatched = 2, warnings = []\<rparr>"
  by code_simp

subsection \<open>Events of another kind\<close>

text \<open>
  Claim C4: an event that is not a key-down, a key-up or a focus loss is answered with a
  warning, without an exception and without a change of the mapping. An event of type
  \<open>modifiers\<close> is none of the three, but \<open>handleEvent\<close> finds the helper
  \<open>_handleModifiers\<close> under the name it computes and calls it with the event: the call
  throws a \<open>TypeError\<close> and no warning is logged.
\<close>

theorem modifiers_event_throws:
  "handleEvent \<lparr>type = ''modifiers'', key = k, location = loc\<rparr> s = Inl TypeError"
  by (simp add: handleEvent_def toUpperCase_kbm)

subsection \<open>Key-up of a key that is not active\<close>

text \<open>
  Claim C5, as stated: a key-up whose key is not active in the mapping changes nothing and
  notifies nobody. With \<open>a\<close> active, the key-up of Shift (which is not active) runs the
  clean-up of \<open>_handleModifiers\<close>: the mapping loses \<open>a\<close> and a change event is
  dispatched.
\<close>

theorem keyup_of_named_key_clears:
  "''Shift'' \<notin> keysOf (handleKeydown ''a'' 0 newKeyWatcher)
   \<and> activeKeys (handleKeyup ''Shift'' 1 (handleKeydown ''a'' 0 newKeyWatcher))
       \<noteq> activeKeys (handleKeydown ''a'' 0 newKeyWatcher)
   \<and> dispatched (handleKeyup ''Shift'' 1 (handleKeydown ''a'' 0 newKeyWatcher))
       \<noteq> dispatched (handleKeydown ''a'' 0 newKeyWatcher)"
  by code_simp

text \<open>
  Claim C5, amended: a key-up whose key is not active, and is not the name of a function
  that the mapping inherits from \<open>Object.prototype\<close>, leaves the whole state as it is,
  unless the key is a named key and an unnamed key is active; then the unnamed keys are
  removed and one change event is dispatched.
\<close>

theorem keyup_inactive:
  assumes "k \<notin> keysOf s" and "k \<notin> set inheritedFunctions"
  shows "handleKeyup k loc s =
           (if isNamedKey k \<and> unnamedActive s
            then dispatch (s\<lparr>activeKeys := filter (\<lambda>p. isNamedKey (fst p)) (activeKeys s)\<rparr>)
            else s)"
proof -
  obtain s1 where hm: "handleModifiers k s =
        ((if k = ''Dead'' then None else Some k, isNamedKey k \<and> unnamedActive s), s1)"
    and s1: "s1 = (if isNamedKey k
                   then s\<lparr>activeKeys := filter (\<lambda>p. isNamedKey (fst p)) (activeKeys s)\<rparr> else s)"
    by (simp add: handleModifiers_eq)
  have rhs: "(if isNamedKey k \<and> unnamedActive s then dispatch s1 else s1) =
               (if isNamedKey k \<and> unnamedActive s
                then dispatch (s\<lparr>activeKeys := filter (\<lambda>p. isNamedKey (fst p)) (activeKeys s)\<rparr>)
                else s)"
    by (auto simp: s1 filter_named_id)
  from assms(1) have "map_of (activeKeys s) k = None"
    by (simp add: keysOf_map_of_None)
  then have none: "map_of (activeKeys s1) k = None"
    by (simp add: s1 map_of_filter_named restrict_map_def)
  show ?thesis
  proof (cases "k = [] \<or> k = ''Dead''")
    case True
    then have "\<not> truthyKey (if k = ''Dead'' then None else Some k)"
      by auto
    from keyup_skip [OF hm this] rhs show ?thesis
      by simp
  next
    case False
    then have hm': "handleModifiers k s = ((Some k, isNamedKey k \<and> unnamedActive s), s1)"
      and k: "k \<noteq> []"
      using hm by simp_all
    have "handleKeyup k loc s = (if isNamedKey k \<and> unnamedActive s then dispatch s1 else s1)"
    proof (cases "k = ''__proto__''")
      case True
      with none have "getProp (activeKeys s1) k = Some Obj"
        and "setProp k v (activeKeys s1) = activeKeys s1" for v
        by (simp_all add: getProp_def setProp_def)
      then show ?thesis
        unfolding handleKeyup_def hm' using k by (simp add: Let_def)
    next
      case False
      with none assms(2) have "getProp (activeKeys s1) k = None"
        by (simp add: getProp_def)
      then show ?thesis
        unfolding handleKeyup_def hm' using k by simp
    qed
    with rhs show ?thesis
      by simp
  qed
qed

theorem keyup_inactive_witness:
  "''b'' \<notin> keysOf (handleKeydown ''a'' 0 newKeyWatcher)
   \<and> ''b'' \<notin> set inheritedFunctions
   \<and> handleKeyup ''b'' 0 (handleKeydown ''a'' 0 newKeyWatcher) = handleKeydown ''a'' 0 newKeyWatcher"
proof -
  have h: "''b'' \<notin> keysOf (handleKeydown ''a'' 0 newKeyWatcher)"
    by code_simp
  have i: "''b'' \<notin> set inheritedFunctions"
    by code_simp
  have n: "\<not> isNamedKey ''b''"
    by code_simp
  from keyup_inactive [OF h i, of 0] n h i show ?thesis
    by simp
qed

subsection \<open>A named key clears the unnamed keys\<close>

text \<open>
  Claim C6: in every state, the key-down of a named key removes every active unnamed key
  (no unnamed key is left in the mapping afterwards); from \<open>{a: 1}\<close>, the key-down of
  Shift at location 1 gives \<open>{Shift: 2}\<close> and exactly one change notification.
\<close>

theorem named_keydown_clears_unnamed:
  assumes "isNamedKey k"
  shows "(\<forall>k'. \<not> isNamedKey k' \<longrightarrow> k' \<notin> keysOf (handleKeydown k loc s))
         \<and> handleKeydown ''Shift'' 1 \<lparr>activeKeys = [(''a'', Num 1)], dispatched = 0, warnings = []\<rparr>
             = \<lparr>activeKeys = [(''Shift'', Num 2)], dispatched = 1, warnings = []\<rparr>"
proof
  show "\<forall>k'. \<not> isNamedKey k' \<longrightarrow> k' \<notin> keysOf (handleKeydown k loc s)"
    using assms by (auto simp: keysOf_dom keydown_map Let_def restrict_map_def split: if_splits)
  show "handleKeydown ''Shift'' 1 \<lparr>activeKeys = [(''a'', Num 1)], dispatched = 0, warnings = []\<rparr>
             = \<lparr>activeKeys = [(''Shift'', Num 2)], dispatched = 1, warnings = []\<rparr>"
    by code_simp
qed

theorem named_keydown_clears_unnamed_witness:
  "isNamedKey ''Shift''
   \<and> ''a'' \<in> keysOf \<lparr>activeKeys = [(''a'', Num 1)], dispatched = 0, warnings = []\<rparr>
   \<and> ''a'' \<notin> keysOf (handleKeydown ''Shift'' 1 \<lparr>activeKeys = [(''a'', Num 1)], dispatched = 0, warnings = []\<rparr>)"
proof -
  have h: "isNamedKey ''Shift''"
    by code_simp
  have n: "\<not> isNamedKey ''a''"
    by code_simp
  have a: "''a'' \<in> keysOf \<lparr>activeKeys = [(''a'', Num 1)], dispatched = 0, warnings = []\<rparr>"
    by (simp add: keysOf_def)
  from named_keydown_clears_unnamed [OF h] n h a show ?thesis
    by blast
qed

subsection \<open>A repeated key-down\<close>

text \<open>
  Claim C7, as stated: a repeated key-down for the same (key, location) pair, with no key-up
  for that pair in between, emits no further change notification and leaves the mapping
  unchanged. Between the two key-downs of \<open>a\<close> at location 0 below there is no key-up, but
  the key-down of Shift removes \<open>a\<close>; the second key-down of \<open>a\<close> adds it again
  and dispatches a change event.
\<close>

theorem keydown_repeated_after_named_key:
  "dispatched (handleKeydown ''a'' 0 (handleKeydown ''Shift'' 1 (handleKeydown ''a'' 0 newKeyWatcher)))
     \<noteq> dispatched (handleKeydown ''Shift'' 1 (handleKeydown ''a'' 0 newKeyWatcher))
   \<and> activeKeys (handleKeydown ''a'' 0 (handleKeydown ''Shift'' 1 (handleKeydown ''a'' 0 newKeyWatcher)))
     \<noteq> activeKeys (handleKeydown ''Shift'' 1 (handleKeydown ''a'' 0 newKeyWatcher))"
  by code_simp

text \<open>
  Claim C7, amended: after a key-down of \<open>(k, loc)\<close> and any sequence of key-downs and
  key-ups that leave the pair alone (no key-up of \<open>k\<close> at a location congruent to \<open>loc\<close>
  modulo 32, no event of a named key when \<open>k\<close> is unnamed, no key-down of an unnamed key when
  \<open>k\<close> is named), a further key-down of \<open>(k, loc)\<close> leaves the whole state as it is:
  the mapping is unchanged and nothing is dispatched. The empty sequence is the immediately
  repeated key-down.
\<close>

theorem repeated_keydown_noop:
  assumes "list_all (leavesAlone k loc) evts"
  shows "\<exists>s'. replay evts (handleKeydown k loc s) = Inr s' \<and> handleKeydown k loc s' = s'"
  using settled_replay [OF assms settled_after_keydown] settled_noop by blast

theorem repeated_keydown_noop_witness:
  "list_all (leavesAlone ''a'' 0) [\<lparr>type = ''keydown'', key = ''b'', location = 0\<rparr>, \<lparr>type = ''keyup'', key = ''b'', location = 0\<rparr>]
   \<and> (\<exists>s'. replay [\<lparr>type = ''keydown'', key = ''b'', location = 0\<rparr>, \<lparr>type = ''keyup'', key = ''b'', location = 0\<rparr>]
              (handleKeydown ''a'' 0 newKeyWatcher) = Inr s'
           \<and> handleKeydown ''a'' 0 s' = s')"
proof -
  have h: "list_all (leavesAlone ''a'' 0) [\<lparr>type = ''keydown'', key = ''b'', location = 0\<rparr>, \<lparr>type = ''keyup'', key = ''b'', location = 0\<rparr>]"
    by code_simp
  from repeated_keydown_noop [OF h, of newKeyWatcher] h show ?thesis
    by blast
qed

subsection \<open>The Dead key\<close>

text \<open>
  Claim C8: for every sequence of key-down, key-up and focus-loss events, replayed from a
  fresh instance, the key identifier \<open>Dead\<close> is in the mapping at no point: not after
  any prefix of the sequence.
\<close>

theorem Dead_never_active:
  assumes "list_all tracked evts"
  shows "\<exists>s. replay (take n evts) newKeyWatcher = Inr s \<and> ''Dead'' \<notin> keysOf s"
proof (rule replay_tracked_invariant)
  show "list_all tracked (take n evts)"
    using assms by (rule list_all_take)
  show "''Dead'' \<notin> keysOf newKeyWatcher"
    by (simp add: keysOf_def newKeyWatcher_def)
qed (simp_all add: Dead_keydown Dead_keyup keysOf_blur)

theorem Dead_never_active_witness:
  "list_all tracked
     [\<lparr>type = ''keydown'', key = ''e'', location = 0\<rparr>,
      \<lparr>type = ''keydown'', key = ''Dead'', location = 0\<rparr>,
      \<lparr>type = ''keyup'', key = ''Dead'', location = 0\<rparr>,
      \<lparr>type = ''blur'', key = [], location = 0\<rparr>]
   \<and> (\<exists>s. replay (take 2
              [\<lparr>type = ''keydown'', key = ''e'', location = 0\<rparr>,
               \<lparr>type = ''keydown'', key = ''Dead'', location = 0\<rparr>,
               \<lparr>type = ''keyup'', key = ''Dead'', location = 0\<rparr>,
               \<lparr>type = ''blur'', key = [], location = 0\<rparr>]) newKeyWatcher = Inr s
          \<and> ''Dead'' \<notin> keysOf s)"
proof -
  have h: "list_all tracked
     [\<lparr>type = ''keydown'', key = ''e'', location = 0\<rparr>,
      \<lparr>type = ''keydown'', key = ''Dead'', location = 0\<rparr>,
      \<lparr>type = ''keyup'', key = ''Dead'', location = 0\<rparr>,
      \<lparr>type = ''blur'', key = [], location = 0\<rparr>]"
    by (simp add: tracked_def)
  from Dead_never_active [OF h, of 2] h show ?thesis
    by blast
qed

subsection \<open>No entry with a zero bitmask\<close>

text \<open>
  Claim C9: at every point between two event handlings, a key identifier is in the mapping
  if and only if one of the 32 location bits of its bitmask is set, and no key in the
  mapping has the bitmask zero (nor a value that is not a number). This holds after every
  prefix of every sequence of key-down, key-up and focus-loss events on a fresh instance,
  whatever the locations are.
\<close>

theorem present_iff_some_bit_set:
  assumes "list_all tracked evts"
  shows "\<exists>s. replay (take n evts) newKeyWatcher = Inr s
           \<and> (\<forall>k. (k \<in> keysOf s) = (\<exists>i<32. bit (toInt32 (map_of (activeKeys s) k)) i))
           \<and> (\<forall>k. map_of (activeKeys s) k \<noteq> Some (Num 0))
           \<and> (\<forall>k. map_of (activeKeys s) k \<noteq> Some Obj)"
proof -
  have "\<exists>s. replay (take n evts) newKeyWatcher = Inr s
          \<and> (\<forall>k. map_of (activeKeys s) k \<noteq> Some (Num 0) \<and> map_of (activeKeys s) k \<noteq> Some Obj)"
  proof (rule replay_tracked_invariant)
    show "list_all tracked (take n evts)"
      using assms by (rule list_all_take)
    show "\<forall>k. map_of (activeKeys newKeyWatcher) k \<noteq> Some (Num 0)
             \<and> map_of (activeKeys newKeyWatcher) k \<noteq> Some Obj"
      by (simp add: newKeyWatcher_def)
  qed (simp_all add: entries_keydown entries_keyup handleBlur_eq)
  then show ?thesis
    using present_iff_bit by blast
qed

theorem present_iff_some_bit_set_witness:
  "list_all tracked
     [\<lparr>type = ''keydown'', key = ''Shift'', location = 1\<rparr>,
      \<lparr>type = ''keydown'', key = ''Shift'', location = 2\<rparr>,
      \<lparr>type = ''keyup'', key = ''Shift'', location = 1\<rparr>,
      \<lparr>type = ''keyup'', key = ''Shift'', location = 2\<rparr>]
   \<and> (\<exists>s. replay (take 3
              [\<lparr>type = ''keydown'', key = ''Shift'', location = 1\<rparr>,
               \<lparr>type = ''keydown'', key = ''Shift'', location = 2\<rparr>,
               \<lparr>type = ''keyup'', key = ''Shift'', location = 1\<rparr>,
               \<lparr>type = ''keyup'', key = ''Shift'', location = 2\<rparr>]) newKeyWatcher = Inr s
          \<and> (''Shift'' \<in> keysOf s) = (\<exists>i<32. bit (toInt32 (map_of (activeKeys s) ''Shift'')) i)
          \<and> map_of (activeKeys s) ''Shift'' \<noteq> Some (Num 0))"
proof -
  have h: "list_all tracked
     [\<lparr>type = ''keydown'', key = ''Shift'', location = 1\<rparr>,
      \<lparr>type = ''keydown'', key = ''Shift'', location = 2\<rparr>,
      \<lparr>type = ''keyup'', key = ''Shift'', location = 1\<rparr>,
      \<lparr>type = ''keyup'', key = ''Shift'', location = 2\<rparr>]"
    by (simp add: tracked_def)
  from present_iff_some_bit_set [OF h, of 3] h show ?thesis
    by blast
qed

subsection \<open>Locations modulo 32\<close>

text \<open>
  Claim C10: the location bit is 1 shifted left by \<open>location mod 32\<close>. For a key that
  the mapping stores, the key-down leaves the key in the mapping with that bit added to its
  bitmask, and the key-up takes exactly that bit out of the bitmask. So two locations that are
  congruent modulo 32 cannot be told apart by key-down or key-up: the key-up at one clears the
  bit that the key-down at the other has set, as the key-up at location 32 does for the
  key-down at location 0.
\<close>

theorem location_bit_mod_32:
  "js_shl 1 loc = push_bit (nat (loc mod 32)) 1
   \<and> (k \<noteq> [] \<and> k \<noteq> ''Dead'' \<and> k \<noteq> ''__proto__'' \<longrightarrow>
        k \<in> keysOf (handleKeydown k loc s)
        \<and> toInt32 (map_of (activeKeys (handleKeydown k loc s)) k)
            = toInt32 (map_of (activeKeys s) k) OR push_bit (nat (loc mod 32)) 1
        \<and> toInt32 (map_of (activeKeys (handleKeyup k loc s)) k)
            = toInt32 (map_of (activeKeys s) k) AND NOT (push_bit (nat (loc mod 32)) 1)
        \<and> (loc mod 32 = loc' mod 32 \<longrightarrow>
             \<not> bit (toInt32 (map_of (activeKeys (handleKeyup k loc' (handleKeydown k loc s))) k))
                  (nat (loc mod 32))))
   \<and> (loc mod 32 = loc' mod 32 \<longrightarrow>
        handleKeydown k loc' s = handleKeydown k loc s
        \<and> handleKeyup k loc' s = handleKeyup k loc s
        \<and> k \<notin> keysOf (handleKeyup k loc' (handleKeydown k loc newKeyWatcher)))
   \<and> handleKeyup ''a'' 32 (handleKeydown ''a'' 0 newKeyWatcher)
       = \<lparr>activeKeys = [], dispatched = 2, warnings = []\<rparr>"
proof -
  have shl: "js_shl 1 loc = push_bit (nat (loc mod 32)) 1"
    by (rule js_shl_mod)
  have ex: "handleKeyup ''a'' 32 (handleKeydown ''a'' 0 newKeyWatcher)
       = \<lparr>activeKeys = [], dispatched = 2, warnings = []\<rparr>"
    by code_simp
  have M: "(if isNamedKey k then map_of (activeKeys s') |` Collect isNamedKey
            else map_of (activeKeys s')) k = map_of (activeKeys s') k" for s'
    by (simp add: restrict_map_def)
  have up_eq: "toInt32 (map_of (activeKeys (handleKeyup k loc s')) k)
            = toInt32 (map_of (activeKeys s') k) AND NOT (push_bit (nat (loc mod 32)) 1)"
    if k: "k \<noteq> []" "k \<noteq> ''Dead''" for s'
    using k
    by (cases "map_of (activeKeys s') k" rule: toInt32.cases)
      (auto simp: keyup_map Let_def M truthy_def js_shl_mod)
  have tracked: "k \<in> keysOf (handleKeydown k loc s)
        \<and> toInt32 (map_of (activeKeys (handleKeydown k loc s)) k)
            = toInt32 (map_of (activeKeys s) k) OR push_bit (nat (loc mod 32)) 1
        \<and> toInt32 (map_of (activeKeys (handleKeyup k loc s)) k)
            = toInt32 (map_of (activeKeys s) k) AND NOT (push_bit (nat (loc mod 32)) 1)"
    if k: "k \<noteq> []" "k \<noteq> ''Dead''" "k \<noteq> ''__proto__''"
  proof (intro conjI)
    show "toInt32 (map_of (activeKeys (handleKeydown k loc s)) k)
            = toInt32 (map_of (activeKeys s) k) OR push_bit (nat (loc mod 32)) 1"
      using k by (simp add: keydown_map Let_def M js_shl_mod)
    show "k \<in> keysOf (handleKeydown k loc s)"
      using k by (simp add: keysOf_dom keydown_map Let_def)
    show "toInt32 (map_of (activeKeys (handleKeyup k loc s)) k)
            = toInt32 (map_of (activeKeys s) k) AND NOT (push_bit (nat (loc mod 32)) 1)"
      using k by (simp add: up_eq)
  qed
  have cong: "handleKeydown k loc' s = handleKeydown k loc s
        \<and> handleKeyup k loc' s' = handleKeyup k loc s'"
    if eq: "loc mod 32 = loc' mod 32" for s'
  proof -
    from eq have b: "js_shl 1 loc' = (js_shl 1 loc :: 32 word)"
      by (simp add: js_shl_mod)
    show ?thesis
      unfolding handleKeydown_def handleKeyup_def b by simp
  qed
  have rel: "\<not> bit (toInt32 (map_of (activeKeys (handleKeyup k loc' (handleKeydown k loc s))) k))
                  (nat (loc mod 32))"
    if k: "k \<noteq> []" "k \<noteq> ''Dead''" and eq: "loc mod 32 = loc' mod 32"
  proof -
    have "nat (loc mod 32) < 32" by simp
    then show ?thesis
      using cong [OF eq, of "handleKeydown k loc s"] up_eq [OF k, of "handleKeydown k loc s"]
      by (simp add: bit_and_iff bit_not_iff bit_exp_iff)
  qed
  have fresh: "k \<notin> keysOf (handleKeyup k loc' (handleKeydown k loc newKeyWatcher))"
    if eq: "loc mod 32 = loc' mod 32"
  proof -
    have "k \<notin> keysOf (handleKeyup k loc (handleKeydown k loc newKeyWatcher))"
      by (auto simp: keysOf_dom keyup_map keydown_map Let_def newKeyWatcher_def restrict_map_def
        js_shl_1_nonzero truthy_def split: if_splits)
    with cong [OF eq, of "handleKeydown k loc newKeyWatcher"] show ?thesis
      by simp
  qed
  from shl ex tracked rel cong fresh show ?thesis
    by blast
qed

theorem location_bit_mod_32_witness:
  "''a'' \<noteq> [] \<and> ''a'' \<noteq> ''Dead'' \<and> ''a'' \<noteq> ''__proto__'' \<and> (0::int) mod 32 = 32 mod 32
   \<and> ''a'' \<in> keysOf (handleKeydown ''a'' 0 newKeyWatcher)
   \<and> toInt32 (map_of (activeKeys (handleKeydown ''a'' 0 newKeyWatcher)) ''a'')
       = toInt32 (map_of (activeKeys newKeyWatcher) ''a'') OR push_bit (nat (0 mod 32)) 1
   \<and> \<not> bit (toInt32 (map_of (activeKeys (handleKeyup ''a'' 32 (handleKeydown ''a'' 0 newKeyWatcher))) ''a''))
           (nat (0 mod 32))
   \<and> handleKeyup ''a'' 32 (handleKeydown ''a'' 0 newKeyWatcher)
       = handleKeyup ''a'' 0 (handleKeydown ''a'' 0 newKeyWatcher)"
proof -
  have k: "''a'' \<noteq> [] \<and> ''a'' \<noteq> ''Dead'' \<and> ''a'' \<noteq> ''__proto__''"
    by simp
  have h: "(0::int) mod 32 = 32 mod 32"
    by simp
  from location_bit_mod_32 [of 0 "''a''" newKeyWatcher 32] k h
    location_bit_mod_32 [of 0 "''a''" "handleKeydown ''a'' 0 newKeyWatcher" 32]
  show ?thesis
    by blast
qed

end
